theory Spec2Isabelle
  imports Complex_Main "HOL-Library.Word" "HOL-Library.Sublist"
begin

unbundle bit_operations_syntax

section \<open>Redis arguments and JavaScript numbers\<close>

text \<open>
  A \<open>RedisArgument\<close> is a string or a byte buffer; both are modelled as a list of
  characters. An argument array is a list of such arguments.
\<close>

type_synonym RedisArgument = string

type_synonym CommandArguments = "RedisArgument list"

text \<open>
  The decimal string of an integer: its digits, most significant first, with a leading
  minus sign for a negative value. The lengths and integers of the wire protocol are
  written so.
\<close>

definition digit_char :: "nat \<Rightarrow> char" where
  "digit_char d = char_of (48 + d)"

fun nat_decimal :: "nat \<Rightarrow> string" where
  "nat_decimal n =
     (if n < 10 then [digit_char n] else nat_decimal (n div 10) @ [digit_char (n mod 10)])"

declare nat_decimal.simps [simp del]

definition int_decimal :: "int \<Rightarrow> string" where
  "int_decimal i =
     (if i < 0 then CHR ''-'' # nat_decimal (nat (- i)) else nat_decimal (nat i))"

section \<open>XRANGE\<close>

text \<open>
  \<^verbatim>\<open>
  export interface XRangeOptions { COUNT?: number; }

  export function transformXRangeArguments(command, key, start, end, options?) {
    const args = [command, key, start, end];
    if (options?.COUNT) {
      args.push('COUNT', options.COUNT.toString());
    }
    return args;
  }
  \<close>
  The optional field and the optional parameter are \<open>option\<close>s.

  \<open>COUNT\<close> is a JavaScript number. What the function reads of it is its truthiness and
  its \<open>toString()\<close>, so a number is one of: a safe integer (of absolute value at most
  \<open>2 ^ 53 - 1\<close>, both zeros being the integer 0), which \<open>toString()\<close> prints as its
  decimal string; \<open>NaN\<close>; or any other number (a fraction, an integer beyond the safe
  range, an infinity), given by the text \<open>toString()\<close> prints for it, such as \<open>0.5\<close>,
  \<open>1e+21\<close> or \<open>Infinity\<close> (the printing of these is not modelled). The guard tests
  the truthiness of \<open>options?.COUNT\<close>: \<open>undefined\<close>, zero and \<open>NaN\<close> are falsy, every
  other number is truthy.
\<close>

datatype number = SafeInteger int | NaN | OtherNumber string

definition MAX_SAFE_INTEGER :: int where
  "MAX_SAFE_INTEGER = 9007199254740991"

definition isSafeInteger :: "int \<Rightarrow> bool" where
  "isSafeInteger n = (- MAX_SAFE_INTEGER \<le> n \<and> n \<le> MAX_SAFE_INTEGER)"

fun number_toString :: "number \<Rightarrow> string" where
  "number_toString (SafeInteger n) = int_decimal n"
| "number_toString NaN = ''NaN''"
| "number_toString (OtherNumber printed) = printed"

record XRangeOptions =
  COUNT :: "number option"

definition optional_COUNT :: "XRangeOptions option \<Rightarrow> number option" where
  "optional_COUNT options = (case options of None \<Rightarrow> None | Some opts \<Rightarrow> COUNT opts)"

fun truthy_number :: "number option \<Rightarrow> bool" where
  "truthy_number None = False"
| "truthy_number (Some (SafeInteger n)) = (n \<noteq> 0)"
| "truthy_number (Some NaN) = False"
| "truthy_number (Some (OtherNumber printed)) = True"

definition transformXRangeArguments ::
  "RedisArgument \<Rightarrow> RedisArgument \<Rightarrow> RedisArgument \<Rightarrow> RedisArgument \<Rightarrow>
   XRangeOptions option \<Rightarrow> CommandArguments" where
  "transformXRangeArguments command key start end' options =
     (let args = [command, key, start, end'] in
      if truthy_number (optional_COUNT options)
      then args @ [''COUNT'', number_toString (the (optional_COUNT options))]
      else args)"

section \<open>Command declarations\<close>

text \<open>
  A command declaration is an object with \<open>FIRST_KEY_INDEX\<close> (a number or
  \<open>undefined\<close>), \<open>IS_READ_ONLY\<close> and \<open>transformArguments\<close>. The argument
  builders take different parameter lists, so each declaration is a record over the type
  of its builder's input.
\<close>

record 'i Command =
  FIRST_KEY_INDEX :: "nat option"
  IS_READ_ONLY :: bool
  transformArguments :: "'i \<Rightarrow> CommandArguments"

text \<open>XRANGE binds the command name of \<open>transformXRangeArguments\<close> to \<open>'XRANGE'\<close>.\<close>

definition XRANGE ::
  "(RedisArgument \<times> RedisArgument \<times> RedisArgument \<times> XRangeOptions option) Command" where
  "XRANGE = \<lparr> FIRST_KEY_INDEX = Some 1, IS_READ_ONLY = True,
     transformArguments = (\<lambda>(key, start, end', options).
        transformXRangeArguments ''XRANGE'' key start end' options) \<rparr>"

definition SRANDMEMBER :: "RedisArgument Command" where
  "SRANDMEMBER = \<lparr> FIRST_KEY_INDEX = Some 1, IS_READ_ONLY = True,
     transformArguments = (\<lambda>key. [''SRANDMEMBER'', key]) \<rparr>"

definition CF_INFO :: "RedisArgument Command" where
  "CF_INFO = \<lparr> FIRST_KEY_INDEX = Some 1, IS_READ_ONLY = True,
     transformArguments = (\<lambda>key. [''CF.INFO'', key]) \<rparr>"

definition CLIENT_GETREDIR :: "unit Command" where
  "CLIENT_GETREDIR = \<lparr> FIRST_KEY_INDEX = None, IS_READ_ONLY = True,
     transformArguments = (\<lambda>_. [''CLIENT'', ''GETREDIR'']) \<rparr>"

text \<open>
  Reading the routing key of an argument array: the element at \<open>FIRST_KEY_INDEX\<close>,
  when the index is defined and inside the array.
\<close>

definition routing_key :: "'i Command \<Rightarrow> 'i \<Rightarrow> RedisArgument option" where
  "routing_key cmd input =
     (case FIRST_KEY_INDEX cmd of
        None \<Rightarrow> None
      | Some i \<Rightarrow>
          (let args = transformArguments cmd input
           in if i < length args then Some (args ! i) else None))"

section \<open>The default retry policy of the credentials provider\<close>

text \<open>
  \<^verbatim>\<open>
  export const DEFAULT_RETRY_POLICY: RetryPolicy = {
    shouldRetry: (error: unknown) => error instanceof NetworkError,
    maxAttempts: 10,
    initialDelayMs: 100,
    maxDelayMs: 100000,
    backoffMultiplier: 2,
    jitterPercentage: 0.1
  };
  \<close>
  A thrown value is any JavaScript value; what \<open>instanceof\<close> reads of it is its
  prototype chain, modelled as the list of the constructors on it (empty for a value that
  is not an object, such as the string \<open>'Token is null'\<close> the factory rejects with).
  The jitter is the fraction one tenth.
\<close>

datatype js_constructor = NetworkError | AuthError | Error | Object | OtherConstructor string

record thrown =
  prototype_chain :: "js_constructor list"
  message :: string

definition instanceof :: "thrown \<Rightarrow> js_constructor \<Rightarrow> bool" where
  "instanceof v c = (c \<in> set (prototype_chain v))"

record RetryPolicy =
  shouldRetry :: "thrown \<Rightarrow> bool"
  maxAttempts :: nat
  initialDelayMs :: nat
  maxDelayMs :: nat
  backoffMultiplier :: nat
  jitterPercentage :: rat

definition DEFAULT_RETRY_POLICY :: RetryPolicy where
  "DEFAULT_RETRY_POLICY = \<lparr> shouldRetry = (\<lambda>error. instanceof error NetworkError),
     maxAttempts = 10, initialDelayMs = 100, maxDelayMs = 100000,
     backoffMultiplier = 2, jitterPercentage = 1 / 10 \<rparr>"

section \<open>Reply frames and their wire form\<close>

text \<open>
  Modelled from the spec: the RESP codec (the decoder and the wire format of replies are
  not among the sources). Section 3 of the spec gives the kinds of a \<open>ReplyFrame\<close>,
  section 6 the framing: every frame starts with a type byte and its header line ends
  with CR LF; RESP3 adds the type bytes \<open>%\<close>, \<open>~\<close>, \<open>,\<close>, \<open>#\<close>, \<open>(\<close>, \<open>=\<close>,
  \<open>_\<close> and \<open>>\<close>. The type bytes of RESP2 (\<open>+\<close>, \<open>-\<close>, \<open>:\<close>, \<open>$\<close>, \<open>*\<close>) and the
  length conventions are those of the protocol the spec names. A double keeps the text
  of its line.
\<close>

definition CR :: char where
  "CR = CHR 0x0D"

definition LF :: char where
  "LF = CHR 0x0A"

datatype RespVersion = RESP2 | RESP3

datatype ReplyFrame =
    SimpleString string
  | ErrorReply string
  | Integer int
  | BlobString string
  | Null
  | Array "ReplyFrame list"
  | Map "(ReplyFrame \<times> ReplyFrame) list"
  | Set "ReplyFrame list"
  | Double string
  | Boolean bool
  | BigNumber int
  | VerbatimString string
  | Push "ReplyFrame list"

definition line :: "char \<Rightarrow> string \<Rightarrow> string" where
  "line tag body = tag # body @ [CR, LF]"

text \<open>
  Modelled from the spec: the wire form of a reply frame, as the server writes it (no
  encoder of replies is among the sources). A blob carries its length, then its bytes,
  then CR LF; an aggregate carries its number of elements (a map its number of pairs),
  then the elements. The null of RESP2 is the blob of length \<open>-1\<close>, the null of RESP3
  the line \<open>_\<close>.
\<close>

fun encode_reply :: "RespVersion \<Rightarrow> ReplyFrame \<Rightarrow> string" where
  "encode_reply v (SimpleString s) = line CHR ''+'' s"
| "encode_reply v (ErrorReply s) = line CHR ''-'' s"
| "encode_reply v (Integer i) = line CHR '':'' (int_decimal i)"
| "encode_reply v (BlobString s) = line CHR ''$'' (nat_decimal (length s)) @ s @ [CR, LF]"
| "encode_reply v Null = (if v = RESP2 then line CHR ''$'' ''-1'' else line CHR ''_'' [])"
| "encode_reply v (Array fs) =
     line CHR ''*'' (nat_decimal (length fs)) @ concat (map (encode_reply v) fs)"
| "encode_reply v (Map kvs) =
     line CHR ''%'' (nat_decimal (length kvs)) @
     concat (map (\<lambda>(k, x). encode_reply v k @ encode_reply v x) kvs)"
| "encode_reply v (Set fs) =
     line CHR ''~'' (nat_decimal (length fs)) @ concat (map (encode_reply v) fs)"
| "encode_reply v (Double s) = line CHR '','' s"
| "encode_reply v (Boolean b) = line CHR ''#'' (if b then ''t'' else ''f'')"
| "encode_reply v (BigNumber i) = line CHR ''('' (int_decimal i)"
| "encode_reply v (VerbatimString s) =
     line CHR ''='' (nat_decimal (length s)) @ s @ [CR, LF]"
| "encode_reply v (Push fs) =
     line CHR ''>'' (nat_decimal (length fs)) @ concat (map (encode_reply v) fs)"

text \<open>
  A frame is well formed for a protocol version when the text of its lines holds no CR
  (a line ends at the first one) and every frame kind in it exists in that version.
\<close>

fun well_formed :: "RespVersion \<Rightarrow> ReplyFrame \<Rightarrow> bool" where
  "well_formed v (SimpleString s) = (CR \<notin> set s)"
| "well_formed v (ErrorReply s) = (CR \<notin> set s)"
| "well_formed v (Integer i) = True"
| "well_formed v (BlobString s) = True"
| "well_formed v Null = True"
| "well_formed v (Array fs) = (\<forall>f \<in> set fs. well_formed v f)"
| "well_formed v (Map kvs) =
     (v = RESP3 \<and> (\<forall>(k, x) \<in> set kvs. well_formed v k \<and> well_formed v x))"
| "well_formed v (Set fs) = (v = RESP3 \<and> (\<forall>f \<in> set fs. well_formed v f))"
| "well_formed v (Double s) = (v = RESP3 \<and> CR \<notin> set s)"
| "well_formed v (Boolean b) = (v = RESP3)"
| "well_formed v (BigNumber i) = (v = RESP3)"
| "well_formed v (VerbatimString s) = (v = RESP3)"
| "well_formed v (Push fs) = (v = RESP3 \<and> (\<forall>f \<in> set fs. well_formed v f))"

section \<open>The resumable decoder\<close>

text \<open>
  Modelled from the spec: the decoder of section 4.1 (it is not among the sources). It
  consumes a buffer byte by byte and keeps, between calls, all it has read of an
  unfinished frame: the phase inside the current header line or blob, and a stack of the
  aggregates that are still open, each with the number of elements it still waits for
  and the elements it has. The protocol version is fixed at the handshake and is a
  parameter of every function. A malformed leading byte, a malformed header line or a
  missing terminator is a \<open>ProtocolError\<close>. (The spec also makes an oversized declared
  length a \<open>ProtocolError\<close> and leaves the bound open; the model sets no bound. A stream
  that ends early is seen by the connection, not by the decoder.)
\<close>

definition is_digit :: "char \<Rightarrow> bool" where
  "is_digit c = (48 \<le> (of_char c :: nat) \<and> (of_char c :: nat) \<le> 57)"

definition digit_value :: "char \<Rightarrow> nat" where
  "digit_value c = of_char c - 48"

definition parse_nat :: "string \<Rightarrow> nat option" where
  "parse_nat s =
     (if s \<noteq> [] \<and> list_all is_digit s
      then Some (foldl (\<lambda>acc c. 10 * acc + digit_value c) 0 s) else None)"

definition parse_int :: "string \<Rightarrow> int option" where
  "parse_int s =
     (case s of
        [] \<Rightarrow> None
      | c # ds \<Rightarrow>
          if c = CHR ''-'' then map_option (\<lambda>n. - int n) (parse_nat ds)
          else map_option int (parse_nat s))"

datatype scalar_kind = KSimple | KError | KInteger | KDouble | KBoolean | KBigNumber | KNull

datatype blob_kind = KBlob | KVerbatim

datatype aggregate_kind = KArray | KMap | KSet | KPush

datatype line_kind = LScalar scalar_kind | LBlob blob_kind | LAggregate aggregate_kind

datatype ProtocolError = MalformedLeadingByte | MalformedLine | MalformedTerminator

text \<open>The type byte selects the kind of frame; the RESP3 bytes are malformed under RESP2.\<close>

definition kind_of_tag :: "RespVersion \<Rightarrow> char \<Rightarrow> line_kind option" where
  "kind_of_tag v b =
     (if b = CHR ''+'' then Some (LScalar KSimple)
      else if b = CHR ''-'' then Some (LScalar KError)
      else if b = CHR '':'' then Some (LScalar KInteger)
      else if b = CHR ''$'' then Some (LBlob KBlob)
      else if b = CHR ''*'' then Some (LAggregate KArray)
      else if v = RESP2 then None
      else if b = CHR ''%'' then Some (LAggregate KMap)
      else if b = CHR ''~'' then Some (LAggregate KSet)
      else if b = CHR '','' then Some (LScalar KDouble)
      else if b = CHR ''#'' then Some (LScalar KBoolean)
      else if b = CHR ''('' then Some (LScalar KBigNumber)
      else if b = CHR ''='' then Some (LBlob KVerbatim)
      else if b = CHR ''_'' then Some (LScalar KNull)
      else if b = CHR ''>'' then Some (LAggregate KPush)
      else None)"

fun scalar_frame :: "scalar_kind \<Rightarrow> string \<Rightarrow> ReplyFrame option" where
  "scalar_frame KSimple body = Some (SimpleString body)"
| "scalar_frame KError body = Some (ErrorReply body)"
| "scalar_frame KInteger body = map_option Integer (parse_int body)"
| "scalar_frame KDouble body = Some (Double body)"
| "scalar_frame KBoolean body =
     (if body = ''t'' then Some (Boolean True)
      else if body = ''f'' then Some (Boolean False) else None)"
| "scalar_frame KBigNumber body = map_option BigNumber (parse_int body)"
| "scalar_frame KNull body = (if body = [] then Some Null else None)"

fun blob_frame :: "blob_kind \<Rightarrow> string \<Rightarrow> ReplyFrame" where
  "blob_frame KBlob s = BlobString s"
| "blob_frame KVerbatim s = VerbatimString s"

fun pairs :: "'a list \<Rightarrow> ('a \<times> 'a) list" where
  "pairs (k # x # rest) = (k, x) # pairs rest"
| "pairs _ = []"

definition entries :: "('a \<times> 'a) list \<Rightarrow> 'a list" where
  "entries kvs = concat (map (\<lambda>(k, x). [k, x]) kvs)"

fun aggregate_frame :: "aggregate_kind \<Rightarrow> ReplyFrame list \<Rightarrow> ReplyFrame" where
  "aggregate_frame KArray items = Array items"
| "aggregate_frame KMap items = Map (pairs items)"
| "aggregate_frame KSet items = Set items"
| "aggregate_frame KPush items = Push items"

datatype phase =
    AwaitType
  | InLine line_kind string
  | AwaitLF line_kind string
  | InBlob blob_kind nat string
  | BlobCR blob_kind string
  | BlobLF blob_kind string

type_synonym open_aggregate = "aggregate_kind \<times> nat \<times> ReplyFrame list"

record decoder =
  phase :: phase
  stack :: "open_aggregate list"

definition initial_decoder :: decoder where
  "initial_decoder = \<lparr> phase = AwaitType, stack = [] \<rparr>"

text \<open>
  A finished value goes into the innermost open aggregate; an aggregate that has got its
  last element is finished in turn. With no aggregate open the value is the decoded frame.
\<close>

fun complete ::
  "ReplyFrame \<Rightarrow> open_aggregate list \<Rightarrow> ReplyFrame option \<times> open_aggregate list" where
  "complete f [] = (Some f, [])"
| "complete f ((k, n, items) # stk) =
     (if n \<le> 1 then complete (aggregate_frame k (items @ [f])) stk
      else (None, (k, n - 1, items @ [f]) # stk))"

type_synonym step_result = "ProtocolError + ReplyFrame option \<times> decoder"

definition deliver :: "ReplyFrame \<Rightarrow> open_aggregate list \<Rightarrow> step_result" where
  "deliver f stk =
     (case complete f stk of (out, stk') \<Rightarrow> Inr (out, \<lparr> phase = AwaitType, stack = stk' \<rparr>))"

definition end_of_line :: "line_kind \<Rightarrow> string \<Rightarrow> open_aggregate list \<Rightarrow> step_result" where
  "end_of_line k body stk =
     (case k of
        LScalar sk \<Rightarrow>
          (case scalar_frame sk body of
             None \<Rightarrow> Inl MalformedLine
           | Some f \<Rightarrow> deliver f stk)
      | LBlob bk \<Rightarrow>
          (case parse_int body of
             None \<Rightarrow> Inl MalformedLine
           | Some n \<Rightarrow>
               if n = - 1 \<and> bk = KBlob then deliver Null stk
               else if n < 0 then Inl MalformedLine
               else if n = 0 then Inr (None, \<lparr> phase = BlobCR bk [], stack = stk \<rparr>)
               else Inr (None, \<lparr> phase = InBlob bk (nat n) [], stack = stk \<rparr>))
      | LAggregate ak \<Rightarrow>
          (case parse_int body of
             None \<Rightarrow> Inl MalformedLine
           | Some n \<Rightarrow>
               if n = - 1 \<and> ak = KArray then deliver Null stk
               else if n < 0 then Inl MalformedLine
               else
                 (let count = (if ak = KMap then 2 * nat n else nat n)
                  in if count = 0 then deliver (aggregate_frame ak []) stk
                     else Inr (None, \<lparr> phase = AwaitType, stack = (ak, count, []) # stk \<rparr>))))"

text \<open>One byte: the new state, and the frame that this byte finished, if it finished one.\<close>

definition step :: "RespVersion \<Rightarrow> decoder \<Rightarrow> char \<Rightarrow> step_result" where
  "step v d b =
     (case phase d of
        AwaitType \<Rightarrow>
          (case kind_of_tag v b of
             None \<Rightarrow> Inl MalformedLeadingByte
           | Some k \<Rightarrow> Inr (None, d\<lparr> phase := InLine k [] \<rparr>))
      | InLine k acc \<Rightarrow>
          if b = CR then Inr (None, d\<lparr> phase := AwaitLF k acc \<rparr>)
          else Inr (None, d\<lparr> phase := InLine k (acc @ [b]) \<rparr>)
      | AwaitLF k acc \<Rightarrow>
          if b = LF then end_of_line k acc (stack d) else Inl MalformedTerminator
      | InBlob bk n acc \<Rightarrow>
          if n \<le> 1 then Inr (None, d\<lparr> phase := BlobCR bk (acc @ [b]) \<rparr>)
          else Inr (None, d\<lparr> phase := InBlob bk (n - 1) (acc @ [b]) \<rparr>)
      | BlobCR bk acc \<Rightarrow>
          if b = CR then Inr (None, d\<lparr> phase := BlobLF bk acc \<rparr>) else Inl MalformedTerminator
      | BlobLF bk acc \<Rightarrow>
          if b = LF then deliver (blob_frame bk acc) (stack d) else Inl MalformedTerminator)"

text \<open>
  Modelled from the spec: \<open>decode(buffer) -> (ReplyFrame | NeedMoreData, consumedBytes)\<close>
  of section 4.1 (not among the sources). A call reads the buffer up to the end of the
  first frame and says how many bytes it consumed; when the buffer ends inside a frame it
  reports \<open>NeedMoreData\<close> and returns the state from which the next call goes on.
\<close>

datatype decoded = Frame ReplyFrame | NeedMoreData | Failed ProtocolError

type_synonym decode_result = "decoded \<times> nat \<times> decoder"

definition consumed_more :: "nat \<Rightarrow> decode_result \<Rightarrow> decode_result" where
  "consumed_more n r = (case r of (out, m, d) \<Rightarrow> (out, n + m, d))"

fun decode :: "RespVersion \<Rightarrow> decoder \<Rightarrow> string \<Rightarrow> decode_result" where
  "decode v d [] = (NeedMoreData, 0, d)"
| "decode v d (b # bs) =
     consumed_more 1
       (case step v d b of
          Inl e \<Rightarrow> (Failed e, 0, d)
        | Inr (Some f, d') \<Rightarrow> (Frame f, 0, d')
        | Inr (None, d') \<Rightarrow> decode v d' bs)"

text \<open>
  Two calls in a row, on a first and a second part of the input: the value of the first
  call when it ends the frame (or fails), else the value of the call that resumes.
\<close>

definition decode_resumed :: "RespVersion \<Rightarrow> decoder \<Rightarrow> string \<Rightarrow> string \<Rightarrow> decoded" where
  "decode_resumed v d first second =
     (case decode v d first of
        (NeedMoreData, n, d') \<Rightarrow> fst (decode v d' second)
      | (out, n, d') \<Rightarrow> out)"

text \<open>
  What follows a step: the decoding goes on with the rest of the buffer unless the step
  finished a frame or failed. \<open>delivered\<close> is what follows a finished value.
\<close>

definition resume :: "RespVersion \<Rightarrow> step_result \<Rightarrow> decoder \<Rightarrow> string \<Rightarrow> decode_result" where
  "resume v r d bs =
     (case r of
        Inl e \<Rightarrow> (Failed e, 0, d)
      | Inr (Some f, d') \<Rightarrow> (Frame f, 0, d')
      | Inr (None, d') \<Rightarrow> decode v d' bs)"

definition delivered ::
  "RespVersion \<Rightarrow> ReplyFrame \<Rightarrow> open_aggregate list \<Rightarrow> string \<Rightarrow> decode_result" where
  "delivered v f stk rest =
     (case complete f stk of
        (Some g, stk') \<Rightarrow> (Frame g, 0, \<lparr> phase = AwaitType, stack = stk' \<rparr>)
      | (None, stk') \<Rightarrow> decode v \<lparr> phase = AwaitType, stack = stk' \<rparr> rest)"

section \<open>The command pipeline of one connection\<close>

text \<open>
  Modelled from the spec: the command pipeline of section 4.2 (the queue and the socket
  handler are not among the sources). A connection holds the decoder's state, the FIFO of
  pending entries (oldest first), the log of resolved result cells in the order of their
  resolution, the push frames handed to the pub/sub multiplexer, the bytes written to the
  socket, and the number of the next result cell. A pending entry is a queued command and
  its result cell (the per-call type mapping of an entry plays no part in the matching
  and is left out).
\<close>

record PendingEntry =
  pending_command :: CommandArguments
  cell :: nat

record connection =
  decoder_state :: decoder
  queue :: "PendingEntry list"
  resolved :: "(nat \<times> ReplyFrame) list"
  pushed :: "ReplyFrame list"
  written :: string
  next_cell :: nat

definition initial_connection :: connection where
  "initial_connection = \<lparr> decoder_state = initial_decoder, queue = [], resolved = [],
     pushed = [], written = [], next_cell = 0 \<rparr>"

text \<open>
  Modelled from the spec: \<open>encode(command)\<close>, the array-of-bulk-strings framing of a
  command in both protocol versions.
\<close>

definition encode :: "CommandArguments \<Rightarrow> string" where
  "encode args = encode_reply RESP2 (Array (map BlobString args))"

text \<open>
  Modelled from the spec: \<open>send(command)\<close> appends the command to the FIFO with a fresh
  result cell and writes its encoding to the socket.
\<close>

definition send :: "connection \<Rightarrow> CommandArguments \<Rightarrow> connection" where
  "send conn args =
     conn\<lparr> queue := queue conn @ [\<lparr> pending_command = args, cell = next_cell conn \<rparr>],
           written := written conn @ encode args,
           next_cell := Suc (next_cell conn) \<rparr>"

definition send_all :: "connection \<Rightarrow> CommandArguments list \<Rightarrow> connection" where
  "send_all conn cmds = foldl send conn cmds"

fun is_push :: "ReplyFrame \<Rightarrow> bool" where
  "is_push (Push items) = True"
| "is_push _ = False"

definition replies_of :: "ReplyFrame list \<Rightarrow> ReplyFrame list" where
  "replies_of frames = filter (\<lambda>f. \<not> is_push f) frames"

text \<open>
  Modelled from the spec: a decoded frame is matched to the head of the queue, which
  leaves the queue as its cell is resolved; a push frame goes to the multiplexer and does
  not touch the queue (section 4.3); a reply that finds the queue empty is discarded as
  unmatched (section 5).
\<close>

definition on_frame :: "connection \<Rightarrow> ReplyFrame \<Rightarrow> connection" where
  "on_frame conn f =
     (if is_push f then conn\<lparr> pushed := pushed conn @ [f] \<rparr>
      else
        (case queue conn of
           [] \<Rightarrow> conn
         | entry # later \<Rightarrow>
             conn\<lparr> queue := later, resolved := resolved conn @ [(cell entry, f)] \<rparr>))"

text \<open>
  Modelled from the spec: the bytes of one network read go through the decoder, and every
  frame is handled the moment its last byte is read. A \<open>ProtocolError\<close> ends the
  processing (the connection is then torn down, which is outside this model).
\<close>

fun on_data :: "RespVersion \<Rightarrow> connection \<Rightarrow> string \<Rightarrow> ProtocolError + connection" where
  "on_data v conn [] = Inr conn"
| "on_data v conn (b # bs) =
     (case step v (decoder_state conn) b of
        Inl e \<Rightarrow> Inl e
      | Inr (None, d') \<Rightarrow> on_data v (conn\<lparr> decoder_state := d' \<rparr>) bs
      | Inr (Some f, d') \<Rightarrow> on_data v (on_frame (conn\<lparr> decoder_state := d' \<rparr>) f) bs)"

fun receive :: "RespVersion \<Rightarrow> connection \<Rightarrow> string list \<Rightarrow> ProtocolError + connection" where
  "receive v conn [] = Inr conn"
| "receive v conn (chunk # chunks) =
     (case on_data v conn chunk of
        Inl e \<Rightarrow> Inl e
      | Inr conn' \<Rightarrow> receive v conn' chunks)"

section \<open>Cluster routing\<close>

text \<open>
  Modelled from the spec: the slot of a routing key (section 4.5 and the glossary; the
  slot computation is not among the sources). The hash tag of a key is the text between
  its first \<open>{\<close> and the first \<open>}\<close> after it, when that text is not empty; the slot is the
  hash of the tag, or of the whole key when it has no tag, reduced to the 16384 slots.
  The spec says only that the key is hashed: the hash function is a parameter.
\<close>

definition hash_tag :: "string \<Rightarrow> string option" where
  "hash_tag key =
     (case dropWhile (\<lambda>c. c \<noteq> CHR ''{'') key of
        [] \<Rightarrow> None
      | opening # after \<Rightarrow>
          if CHR ''}'' \<in> set after
          then (let tag = takeWhile (\<lambda>c. c \<noteq> CHR ''}'') after
                in if tag = [] then None else Some tag)
          else None)"

definition hashed_part :: "string \<Rightarrow> string" where
  "hashed_part key = (case hash_tag key of None \<Rightarrow> key | Some tag \<Rightarrow> tag)"

definition key_slot :: "(string \<Rightarrow> nat) \<Rightarrow> string \<Rightarrow> nat" where
  "key_slot hash key = hash (hashed_part key) mod 16384"

text \<open>
  Modelled from the spec: the \<open>ClusterSlotMap\<close> of section 3, from a slot to its owning
  node, and the dispatch of a key to the owner of its slot.
\<close>

type_synonym 'node ClusterSlotMap = "nat \<rightharpoonup> 'node"

definition target_node ::
  "'node ClusterSlotMap \<Rightarrow> (string \<Rightarrow> nat) \<Rightarrow> string \<Rightarrow> 'node option" where
  "target_node slots hash key = slots (key_slot hash key)"

text \<open>
  Modelled from the spec: a hash to run the slot computation on concrete keys. The spec
  names none; this is the CRC16 of Redis Cluster (polynomial \<open>0x1021\<close>, initial value 0,
  most significant bit first), on a 16-bit register written as a natural number below
  \<open>2 ^ 16\<close>, eight shifts for every byte.
\<close>

definition crc16_bit :: "nat \<Rightarrow> nat" where
  "crc16_bit crc =
     (if 32768 \<le> crc then (2 * crc) mod 65536 XOR 4129 else (2 * crc) mod 65536)"

definition crc16_byte :: "nat \<Rightarrow> char \<Rightarrow> nat" where
  "crc16_byte crc c =
     crc16_bit (crc16_bit (crc16_bit (crc16_bit (crc16_bit (crc16_bit (crc16_bit (crc16_bit
       (crc XOR (256 * of_char c)))))))))"

definition crc16 :: "string \<Rightarrow> nat" where
  "crc16 s = foldl crc16_byte 0 s"

text \<open>Two keys share the substring \<open>{tag}\<close>.\<close>

definition shares_tag :: "string \<Rightarrow> string \<Rightarrow> string \<Rightarrow> bool" where
  "shares_tag tag k1 k2 =
     (sublist (CHR ''{'' # tag @ ''}'') k1 \<and> sublist (CHR ''{'' # tag @ ''}'') k2)"

section \<open>Decimal strings\<close>

lemma of_char_digit_char: "d < 10 \<Longrightarrow> (of_char (digit_char d) :: nat) = 48 + d"
  by (simp add: digit_char_def)

lemma digit_char_is_digit: "d < 10 \<Longrightarrow> is_digit (digit_char d)"
  by (simp add: is_digit_def of_char_digit_char)

lemma digit_value_digit_char: "d < 10 \<Longrightarrow> digit_value (digit_char d) = d"
  by (simp add: digit_value_def of_char_digit_char)

lemma is_digit_not_CR: "is_digit c \<Longrightarrow> c \<noteq> CR"
  by (auto simp: is_digit_def CR_def)

lemma is_digit_not_minus: "is_digit c \<Longrightarrow> c \<noteq> CHR ''-''"
  by (auto simp: is_digit_def)

lemma nat_decimal_digits: "list_all is_digit (nat_decimal n)"
proof (induction n rule: nat_decimal.induct)
  case (1 n)
  show ?case
  proof (cases "n < 10")
    case True
    then show ?thesis by (subst nat_decimal.simps) (simp add: digit_char_is_digit)
  next
    case False
    then show ?thesis
      using 1 by (subst nat_decimal.simps) (simp add: digit_char_is_digit)
  qed
qed

lemma nat_decimal_value:
  "foldl (\<lambda>acc c. 10 * acc + digit_value c) 0 (nat_decimal n) = n"
proof (induction n rule: nat_decimal.induct)
  case (1 n)
  show ?case
  proof (cases "n < 10")
    case True
    then show ?thesis by (subst nat_decimal.simps) (simp add: digit_value_digit_char)
  next
    case False
    then show ?thesis
      using 1 by (subst nat_decimal.simps) (simp add: digit_value_digit_char)
  qed
qed

lemma nat_decimal_nonempty: "nat_decimal n \<noteq> []"
  by (subst nat_decimal.simps) simp

lemma parse_nat_decimal: "parse_nat (nat_decimal n) = Some n"
  by (simp add: parse_nat_def nat_decimal_digits nat_decimal_value nat_decimal_nonempty)

lemma hd_nat_decimal_not_minus: "hd (nat_decimal n) \<noteq> CHR ''-''"
  using nat_decimal_digits [of n] nat_decimal_nonempty [of n]
  by (cases "nat_decimal n") (auto simp: is_digit_not_minus)

lemma parse_int_nat_decimal: "parse_int (nat_decimal n) = Some (int n)"
proof (cases "nat_decimal n")
  case Nil
  then show ?thesis by (simp add: nat_decimal_nonempty)
next
  case (Cons c ds)
  then have "c \<noteq> CHR ''-''"
    using hd_nat_decimal_not_minus [of n] by simp
  moreover have "parse_nat (c # ds) = Some n"
    using parse_nat_decimal [of n] Cons by simp
  ultimately show ?thesis by (simp add: parse_int_def Cons)
qed

lemma parse_int_int_decimal: "parse_int (int_decimal i) = Some i"
proof (cases "i < 0")
  case True
  then show ?thesis by (simp add: int_decimal_def parse_int_def parse_nat_decimal)
next
  case False
  then show ?thesis by (simp add: int_decimal_def parse_int_nat_decimal)
qed

lemma CR_notin_nat_decimal: "CR \<notin> set (nat_decimal n)"
  using nat_decimal_digits [of n] is_digit_not_CR by (auto simp: list_all_iff)

lemma CR_notin_int_decimal: "CR \<notin> set (int_decimal i)"
proof -
  have "CR \<noteq> CHR ''-''" by (simp add: CR_def)
  then show ?thesis by (simp add: int_decimal_def CR_notin_nat_decimal)
qed

section \<open>Argument builders of the declarations under the sources\<close>

text \<open>
  C9, as amended. \<open>transformXRangeArguments(c, k, s, e, o)\<close> is \<open>[c, k, s, e]\<close>,
  extended with \<open>'COUNT'\<close> and \<open>o.COUNT.toString()\<close> exactly when \<open>o.COUNT\<close> is present
  and truthy, that is neither zero nor \<open>NaN\<close>: with no options, with options that carry
  no \<open>COUNT\<close>, with a \<open>COUNT\<close> of zero and with a \<open>COUNT\<close> of \<open>NaN\<close> the array is the
  four leading arguments alone, so a \<open>COUNT\<close> of zero gives the same array as no options
  at all; every other \<open>COUNT\<close> is appended after the word \<open>'COUNT'\<close>, a safe integer
  as its decimal string, any other number as the text \<open>toString()\<close> prints for it.
\<close>

theorem transformXRangeArguments_COUNT:
  "transformXRangeArguments c k s e None = [c, k, s, e] \<and>
   transformXRangeArguments c k s e (Some \<lparr>COUNT = None\<rparr>) = [c, k, s, e] \<and>
   transformXRangeArguments c k s e (Some \<lparr>COUNT = Some (SafeInteger 0)\<rparr>) =
     transformXRangeArguments c k s e None \<and>
   transformXRangeArguments c k s e (Some \<lparr>COUNT = Some NaN\<rparr>) = [c, k, s, e] \<and>
   (n \<noteq> 0 \<and> isSafeInteger n \<longrightarrow>
     transformXRangeArguments c k s e (Some \<lparr>COUNT = Some (SafeInteger n)\<rparr>) =
       [c, k, s, e, ''COUNT'', int_decimal n]) \<and>
   transformXRangeArguments c k s e (Some \<lparr>COUNT = Some (OtherNumber printed)\<rparr>) =
     [c, k, s, e, ''COUNT'', printed]"
  by (simp add: transformXRangeArguments_def optional_COUNT_def)

text \<open>A \<open>COUNT\<close> of zero, and a \<open>COUNT\<close> of 25.\<close>

theorem transformXRangeArguments_COUNT_witness:
  "transformXRangeArguments ''XRANGE'' ''key'' ''-'' ''+'' (Some \<lparr>COUNT = Some (SafeInteger 0)\<rparr>) =
     [''XRANGE'', ''key'', ''-'', ''+''] \<and>
   isSafeInteger 25 \<and>
   transformXRangeArguments ''XRANGE'' ''key'' ''-'' ''+'' (Some \<lparr>COUNT = Some (SafeInteger 25)\<rparr>) =
     [''XRANGE'', ''key'', ''-'', ''+'', ''COUNT'', ''25'']"
proof -
  have digits: "int_decimal 25 = ''25''"
    by code_simp
  have safe: "isSafeInteger 25"
    by (simp add: isSafeInteger_def MAX_SAFE_INTEGER_def)
  show ?thesis
    using transformXRangeArguments_COUNT [of "''XRANGE''" "''key''" "''-''" "''+''" 25] digits safe
    by simp
qed

text \<open>
  The claim as stated fails at \<open>{COUNT: NaN}\<close>: the \<open>COUNT\<close> is present and is not zero,
  yet the guard takes it for falsy and the array is not extended with \<open>'COUNT'\<close> and
  \<open>'NaN'\<close>.
\<close>

theorem transformXRangeArguments_NaN_counterexample:
  "COUNT \<lparr>COUNT = Some NaN\<rparr> = Some NaN \<and>
   NaN \<noteq> SafeInteger 0 \<and>
   transformXRangeArguments ''XRANGE'' ''key'' ''-'' ''+'' (Some \<lparr>COUNT = Some NaN\<rparr>) =
     [''XRANGE'', ''key'', ''-'', ''+''] \<and>
   transformXRangeArguments ''XRANGE'' ''key'' ''-'' ''+'' (Some \<lparr>COUNT = Some NaN\<rparr>) \<noteq>
     [''XRANGE'', ''key'', ''-'', ''+'', ''COUNT'', number_toString NaN]"
  by (simp add: transformXRangeArguments_def optional_COUNT_def)

text \<open>
  C8. The declarations that set \<open>FIRST_KEY_INDEX\<close> to 1 (XRANGE, SRANDMEMBER, CF.INFO)
  build, for every input, an argument array that has the caller's key at index 1; the
  declaration of CLIENT GETREDIR, which takes no key, sets \<open>FIRST_KEY_INDEX\<close> to
  \<open>undefined\<close>.
\<close>

theorem FIRST_KEY_INDEX_routing_key:
  "FIRST_KEY_INDEX XRANGE = Some 1 \<and>
   routing_key XRANGE (key, start, end', options) = Some key \<and>
   FIRST_KEY_INDEX SRANDMEMBER = Some 1 \<and>
   routing_key SRANDMEMBER key = Some key \<and>
   FIRST_KEY_INDEX CF_INFO = Some 1 \<and>
   routing_key CF_INFO key = Some key \<and>
   FIRST_KEY_INDEX CLIENT_GETREDIR = None"
  by (simp add: routing_key_def XRANGE_def SRANDMEMBER_def CF_INFO_def CLIENT_GETREDIR_def
      transformXRangeArguments_def Let_def)

section \<open>The retry policy\<close>

text \<open>
  C10. Under \<open>DEFAULT_RETRY_POLICY\<close>, \<open>shouldRetry(e)\<close> is true if and only if \<open>e\<close> is
  an instance of \<open>NetworkError\<close>, so a failure of any other kind is not retried; the
  policy allows 10 attempts, starts at a delay of 100 ms, doubles it, caps it at
  100000 ms and sets the jitter to one tenth.
\<close>

theorem DEFAULT_RETRY_POLICY_values:
  "(shouldRetry DEFAULT_RETRY_POLICY e \<longleftrightarrow> instanceof e NetworkError) \<and>
   maxAttempts DEFAULT_RETRY_POLICY = 10 \<and>
   initialDelayMs DEFAULT_RETRY_POLICY = 100 \<and>
   backoffMultiplier DEFAULT_RETRY_POLICY = 2 \<and>
   maxDelayMs DEFAULT_RETRY_POLICY = 100000 \<and>
   jitterPercentage DEFAULT_RETRY_POLICY = 1 / 10"
  by (simp add: DEFAULT_RETRY_POLICY_def)

section \<open>Decoding one frame\<close>

lemma decode_Cons: "decode v d (b # bs) = consumed_more 1 (resume v (step v d b) d bs)"
  by (simp add: resume_def)

lemma consumed_more_twice [simp]:
  "consumed_more a (consumed_more b r) = consumed_more (a + b) r"
  by (cases r) (simp add: consumed_more_def)

lemma resume_deliver: "resume v (deliver f stk) d rest = delivered v f stk rest"
  by (simp add: resume_def deliver_def delivered_def split: prod.splits option.splits)

lemma resume_continue [simp]: "resume v (Inr (None, d')) d bs = decode v d' bs"
  by (simp add: resume_def)

lemma LF_not_CR [simp]: "LF \<noteq> CR" "CR \<noteq> LF"
  by (simp_all add: CR_def LF_def)

lemma decode_line:
  "CR \<notin> set body \<Longrightarrow>
   decode v \<lparr> phase = InLine k acc, stack = stk \<rparr> (body @ CR # LF # rest) =
     consumed_more (length body + 2)
       (resume v (end_of_line k (acc @ body) stk)
          \<lparr> phase = AwaitLF k (acc @ body), stack = stk \<rparr> rest)"
proof (induction body arbitrary: acc)
  case Nil
  show ?case
    by (simp add: decode_Cons step_def numeral_2_eq_2 numeral_3_eq_3 del: decode.simps)
next
  case (Cons b body)
  then have "b \<noteq> CR" and "CR \<notin> set body" by auto
  then show ?case
    using Cons.IH [of "acc @ [b]"]
    by (simp add: decode_Cons step_def numeral_2_eq_2 numeral_3_eq_3 del: decode.simps)
qed

lemma decode_header:
  assumes "kind_of_tag v tag = Some k" and "CR \<notin> set body"
  shows "decode v \<lparr> phase = AwaitType, stack = stk \<rparr> (line tag body @ rest) =
     consumed_more (length body + 3)
       (resume v (end_of_line k body stk) \<lparr> phase = AwaitLF k body, stack = stk \<rparr> rest)"
  using assms decode_line [of body v k "[]" stk rest]
  by (simp add: line_def decode_Cons step_def numeral_2_eq_2 numeral_3_eq_3 del: decode.simps)

lemma decode_blob_terminator:
  "decode v \<lparr> phase = BlobCR bk acc, stack = stk \<rparr> (CR # LF # rest) =
     consumed_more 2 (delivered v (blob_frame bk acc) stk rest)"
  by (simp add: decode_Cons step_def resume_deliver numeral_2_eq_2 numeral_3_eq_3 del: decode.simps)

lemma decode_blob:
  "s \<noteq> [] \<Longrightarrow>
   decode v \<lparr> phase = InBlob bk (length s) acc, stack = stk \<rparr> (s @ CR # LF # rest) =
     consumed_more (length s + 2) (delivered v (blob_frame bk (acc @ s)) stk rest)"
proof (induction s arbitrary: acc)
  case Nil
  then show ?case by simp
next
  case (Cons b s)
  show ?case
  proof (cases "s = []")
    case True
    then show ?thesis
      using decode_blob_terminator [of v bk "acc @ [b]" stk rest]
      by (simp add: decode_Cons step_def numeral_2_eq_2 numeral_3_eq_3 del: decode.simps)
  next
    case False
    then have "\<not> Suc (length s) \<le> 1" by (cases s) auto
    then show ?thesis
      using Cons.IH [OF False, of "acc @ [b]"]
      by (simp add: decode_Cons step_def numeral_2_eq_2 numeral_3_eq_3 del: decode.simps)
  qed
qed

lemma end_of_line_blob:
  "resume v (end_of_line (LBlob bk) (nat_decimal (length s)) stk) d (s @ CR # LF # rest) =
     consumed_more (length s + 2) (delivered v (blob_frame bk s) stk rest)"
proof (cases "s = []")
  case True
  then show ?thesis
    using decode_blob_terminator [of v bk "[]" stk rest]
    by (simp add: end_of_line_def parse_int_nat_decimal numeral_2_eq_2)
next
  case False
  then show ?thesis
    using decode_blob [OF False, of v bk "[]" stk rest]
    by (simp add: end_of_line_def parse_int_nat_decimal numeral_2_eq_2)
qed

lemma delivered_into_last:
  "delivered v f ((ak, Suc 0, items) # stk) rest =
     delivered v (aggregate_frame ak (items @ [f])) stk rest"
  by (simp add: delivered_def)

lemma delivered_into_open:
  "delivered v f ((ak, Suc (Suc n), items) # stk) rest =
     decode v \<lparr> phase = AwaitType, stack = (ak, Suc n, items @ [f]) # stk \<rparr> rest"
  by (simp add: delivered_def)

lemma decode_items:
  assumes "\<And>f stk rest. f \<in> set fs \<Longrightarrow>
     decode v \<lparr> phase = AwaitType, stack = stk \<rparr> (encode_reply v f @ rest) =
       consumed_more (length (encode_reply v f)) (delivered v f stk rest)"
    and "fs \<noteq> []"
  shows "decode v \<lparr> phase = AwaitType, stack = (ak, length fs, items) # stk \<rparr>
       (concat (map (encode_reply v) fs) @ rest) =
     consumed_more (length (concat (map (encode_reply v) fs)))
       (delivered v (aggregate_frame ak (items @ fs)) stk rest)"
  using assms
proof (induction fs arbitrary: items)
  case Nil
  then show ?case by simp
next
  case (Cons f fs)
  have here: "decode v \<lparr> phase = AwaitType, stack = stk' \<rparr> (encode_reply v f @ rest') =
       consumed_more (length (encode_reply v f)) (delivered v f stk' rest')" for stk' rest'
    using Cons.prems(1) by simp
  show ?case
  proof (cases "fs = []")
    case True
    then show ?thesis
      using here [of "(ak, Suc 0, items) # stk" rest]
      by (simp add: delivered_into_last)
  next
    case False
    then obtain n where n: "length fs = Suc n" by (cases fs) auto
    have later: "decode v \<lparr> phase = AwaitType, stack = (ak, length fs, items @ [f]) # stk \<rparr>
         (concat (map (encode_reply v) fs) @ rest) =
       consumed_more (length (concat (map (encode_reply v) fs)))
         (delivered v (aggregate_frame ak ((items @ [f]) @ fs)) stk rest)"
      using Cons.IH [OF _ False, of "items @ [f]"] Cons.prems(1) by simp
    show ?thesis
      using here [of "(ak, Suc (Suc n), items) # stk" "concat (map (encode_reply v) fs) @ rest"]
        later
      by (simp add: n delivered_into_open add.commute)
  qed
qed

lemma entries_simps [simp]:
  "entries [] = []" "entries ((k, x) # kvs) = k # x # entries kvs"
  by (simp_all add: entries_def)

lemma pairs_entries: "pairs (entries kvs) = kvs"
  by (induction kvs) auto

lemma length_entries: "length (entries kvs) = 2 * length kvs"
  by (induction kvs) auto

lemma set_entries: "set (entries kvs) = fst ` set kvs \<union> snd ` set kvs"
  by (induction kvs) force+

lemma encode_entries:
  "concat (map (\<lambda>(k, x). encode_reply v k @ encode_reply v x) kvs) =
   concat (map (encode_reply v) (entries kvs))"
  by (induction kvs) auto

lemma length_line: "length (line tag body) = length body + 3"
  by (simp add: line_def)

lemma decode_scalar:
  assumes "kind_of_tag v tag = Some (LScalar sk)" and "CR \<notin> set body"
    and "scalar_frame sk body = Some f"
  shows "decode v \<lparr> phase = AwaitType, stack = stk \<rparr> (line tag body @ rest) =
     consumed_more (length (line tag body)) (delivered v f stk rest)"
  using decode_header [OF assms(1,2), where stk = stk and rest = rest] assms(3)
  by (simp add: end_of_line_def resume_deliver length_line)

lemma decode_blob_frame:
  assumes "kind_of_tag v tag = Some (LBlob bk)"
  shows "decode v \<lparr> phase = AwaitType, stack = stk \<rparr>
       ((line tag (nat_decimal (length s)) @ s @ [CR, LF]) @ rest) =
     consumed_more (length (line tag (nat_decimal (length s)) @ s @ [CR, LF]))
       (delivered v (blob_frame bk s) stk rest)"
  using decode_header [OF assms CR_notin_nat_decimal, where n1 = "length s" and stk = stk
      and rest = "s @ CR # LF # rest"]
  by (simp add: end_of_line_blob length_line add.commute)

lemma decode_aggregate:
  assumes tag: "kind_of_tag v tag = Some (LAggregate ak)"
    and each: "\<And>f stk rest. f \<in> set fs \<Longrightarrow>
       decode v \<lparr> phase = AwaitType, stack = stk \<rparr> (encode_reply v f @ rest) =
         consumed_more (length (encode_reply v f)) (delivered v f stk rest)"
    and count: "length fs = (if ak = KMap then 2 * n else n)"
  shows "decode v \<lparr> phase = AwaitType, stack = stk \<rparr>
       ((line tag (nat_decimal n) @ concat (map (encode_reply v) fs)) @ rest) =
     consumed_more (length (line tag (nat_decimal n) @ concat (map (encode_reply v) fs)))
       (delivered v (aggregate_frame ak fs) stk rest)"
proof (cases "fs = []")
  case True
  then have "n = 0" using count by (simp split: if_splits)
  then show ?thesis
    using decode_header [OF tag CR_notin_nat_decimal, where n1 = 0 and stk = stk
        and rest = rest] True
    by (simp add: end_of_line_def parse_int_nat_decimal resume_deliver length_line)
next
  case False
  have opened: "end_of_line (LAggregate ak) (nat_decimal n) stk =
      Inr (None, \<lparr> phase = AwaitType, stack = (ak, length fs, []) # stk \<rparr>)"
    using False count
    by (auto simp: end_of_line_def parse_int_nat_decimal Let_def split: if_splits)
  show ?thesis
    using decode_header [OF tag CR_notin_nat_decimal, where n1 = n and stk = stk
        and rest = "concat (map (encode_reply v) fs) @ rest"]
      decode_items [OF each False, where ak = ak and items = "[]" and stk = stk
        and rest = rest]
    by (simp add: opened length_line add.commute)
qed

lemma parse_int_minus_one: "parse_int ''-1'' = Some (- 1)"
  by (simp add: parse_int_def parse_nat_def is_digit_def digit_value_def)

lemma decode_frame:
  "well_formed v f \<Longrightarrow>
   decode v \<lparr> phase = AwaitType, stack = stk \<rparr> (encode_reply v f @ rest) =
     consumed_more (length (encode_reply v f)) (delivered v f stk rest)"
proof (induction f arbitrary: stk rest)
  case (SimpleString s)
  then show ?case
    using decode_scalar [of v "CHR ''+''" KSimple s "SimpleString s" stk rest]
    by (simp add: kind_of_tag_def)
next
  case (ErrorReply s)
  then show ?case
    using decode_scalar [of v "CHR ''-''" KError s "ErrorReply s" stk rest]
    by (simp add: kind_of_tag_def)
next
  case (Integer i)
  then show ?case
    using decode_scalar [of v "CHR '':''" KInteger "int_decimal i" "Integer i" stk rest]
    by (simp add: kind_of_tag_def CR_notin_int_decimal parse_int_int_decimal)
next
  case (BlobString s)
  then show ?case
    using decode_blob_frame [where v = v and tag = "CHR ''$''" and bk = KBlob and stk = stk
        and s = s and rest = rest]
    by (simp add: kind_of_tag_def)
next
  case Null
  show ?case
  proof (cases v)
    case RESP2
    have "CR \<notin> set ''-1''" by (simp add: CR_def)
    then show ?thesis
      using decode_header [of v "CHR ''$''" "LBlob KBlob" "''-1''" stk rest] RESP2
      by (simp add: kind_of_tag_def end_of_line_def parse_int_minus_one resume_deliver
          length_line)
  next
    case RESP3
    then show ?thesis
      using decode_scalar [of v "CHR ''_''" KNull "[]" Null stk rest]
      by (simp add: kind_of_tag_def)
  qed
next
  case (Array fs)
  have each: "decode v \<lparr> phase = AwaitType, stack = stk \<rparr> (encode_reply v f @ rest) =
         consumed_more (length (encode_reply v f)) (delivered v f stk rest)"
    if "f \<in> set fs" for f stk rest
  proof -
    have "well_formed v f" using that Array.prems by auto
    then show ?thesis by (rule Array.IH [OF that])
  qed
  from Array.prems show ?case
    using decode_aggregate [where v = v and tag = "CHR ''*''" and ak = KArray and fs = fs
        and n = "length fs" and stk = stk and rest = rest, OF _ each]
    by (simp add: kind_of_tag_def)
next
  case (Map kvs)
  have each: "decode v \<lparr> phase = AwaitType, stack = stk \<rparr> (encode_reply v f @ rest) =
         consumed_more (length (encode_reply v f)) (delivered v f stk rest)"
    if "f \<in> set (entries kvs)" for f stk rest
  proof -
    from that obtain k x where kx: "(k, x) \<in> set kvs" and f: "f = k \<or> f = x"
      by (auto simp: set_entries)
    from kx Map.prems have wf: "well_formed v k" "well_formed v x" by auto
    from f show ?thesis
    proof
      assume "f = k"
      then show ?thesis using Map.IH(1) [OF kx _ wf(1)] by simp
    next
      assume "f = x"
      then show ?thesis using Map.IH(2) [OF kx _ wf(2)] by simp
    qed
  qed
  from Map.prems have v: "v = RESP3" by simp
  show ?case
    using decode_aggregate [where v = v and tag = "CHR ''%''" and ak = KMap
        and fs = "entries kvs" and n = "length kvs" and stk = stk and rest = rest, OF _ each]
    by (simp add: kind_of_tag_def v encode_entries length_entries pairs_entries)
next
  case (Set fs)
  have each: "decode v \<lparr> phase = AwaitType, stack = stk \<rparr> (encode_reply v f @ rest) =
         consumed_more (length (encode_reply v f)) (delivered v f stk rest)"
    if "f \<in> set fs" for f stk rest
  proof -
    have "well_formed v f" using that Set.prems by auto
    then show ?thesis by (rule Set.IH [OF that])
  qed
  from Set.prems show ?case
    using decode_aggregate [where v = v and tag = "CHR ''~''" and ak = KSet and fs = fs
        and n = "length fs" and stk = stk and rest = rest, OF _ each]
    by (simp add: kind_of_tag_def)
next
  case (Double s)
  then show ?case
    using decode_scalar [of v "CHR '',''" KDouble s "Double s" stk rest]
    by (simp add: kind_of_tag_def)
next
  case (Boolean b)
  have "CR \<notin> set (if b then ''t'' else ''f'')" by (simp add: CR_def)
  with Boolean show ?case
    using decode_scalar [of v "CHR ''#''" KBoolean "if b then ''t'' else ''f''" "Boolean b" stk rest]
    by (simp add: kind_of_tag_def)
next
  case (BigNumber i)
  then show ?case
    using decode_scalar [of v "CHR ''(''" KBigNumber "int_decimal i" "BigNumber i" stk rest]
    by (simp add: kind_of_tag_def CR_notin_int_decimal parse_int_int_decimal)
next
  case (VerbatimString s)
  then show ?case
    using decode_blob_frame [where v = v and tag = "CHR ''=''" and bk = KVerbatim
        and stk = stk and s = s and rest = rest]
    by (simp add: kind_of_tag_def)
next
  case (Push fs)
  have each: "decode v \<lparr> phase = AwaitType, stack = stk \<rparr> (encode_reply v f @ rest) =
         consumed_more (length (encode_reply v f)) (delivered v f stk rest)"
    if "f \<in> set fs" for f stk rest
  proof -
    have "well_formed v f" using that Push.prems by auto
    then show ?thesis by (rule Push.IH [OF that])
  qed
  from Push.prems show ?case
    using decode_aggregate [where v = v and tag = "CHR ''>''" and ak = KPush and fs = fs
        and n = "length fs" and stk = stk and rest = rest, OF _ each]
    by (simp add: kind_of_tag_def)
qed

section \<open>Resuming the decoder\<close>

lemma decode_append:
  "decode v d (xs @ ys) =
     (case decode v d xs of
        (NeedMoreData, n, d') \<Rightarrow> consumed_more n (decode v d' ys)
      | r \<Rightarrow> r)"
proof (induction xs arbitrary: d)
  case Nil
  show ?case by (cases "decode v d ys") (simp add: consumed_more_def)
next
  case (Cons b xs)
  show ?case
  proof (cases "step v d b")
    case (Inl e)
    then show ?thesis by (simp add: consumed_more_def)
  next
    case (Inr r)
    obtain out d' where r: "r = (out, d')" by (cases r)
    show ?thesis
    proof (cases out)
      case None
      obtain o2 n2 d2 where d2: "decode v d' xs = (o2, n2, d2)" by (cases "decode v d' xs")
      show ?thesis
        using Cons.IH [of d'] Inr r None d2
        by (cases o2) (simp_all add: consumed_more_def split: prod.splits)
    next
      case (Some f)
      then show ?thesis using Inr r by (simp add: consumed_more_def)
    qed
  qed
qed

lemma decode_consumed_le: "decode v d xs = (out, n, d') \<Longrightarrow> n \<le> length xs"
proof (induction xs arbitrary: d n out d')
  case Nil
  then show ?case by simp
next
  case (Cons b xs)
  show ?case
  proof (cases "step v d b")
    case (Inl e)
    then show ?thesis using Cons.prems by (simp add: consumed_more_def)
  next
    case (Inr r)
    obtain o1 d1 where r: "r = (o1, d1)" by (cases r)
    show ?thesis
    proof (cases o1)
      case None
      obtain o2 n2 d2 where d2: "decode v d1 xs = (o2, n2, d2)" by (cases "decode v d1 xs")
      from Cons.IH [OF d2] have "n2 \<le> length xs" .
      then show ?thesis using Cons.prems Inr r None d2 by (simp add: consumed_more_def)
    next
      case (Some f)
      then show ?thesis using Cons.prems Inr r by (simp add: consumed_more_def)
    qed
  qed
qed

lemma decode_NeedMoreData_consumed:
  "decode v d xs = (NeedMoreData, n, d') \<Longrightarrow> n = length xs"
proof (induction xs arbitrary: d n d')
  case Nil
  then show ?case by simp
next
  case (Cons b xs)
  show ?case
  proof (cases "step v d b")
    case (Inl e)
    then show ?thesis using Cons.prems by (simp add: consumed_more_def)
  next
    case (Inr r)
    obtain o1 d1 where r: "r = (o1, d1)" by (cases r)
    show ?thesis
    proof (cases o1)
      case None
      obtain o2 n2 d2 where d2: "decode v d1 xs = (o2, n2, d2)" by (cases "decode v d1 xs")
      with Cons.prems Inr r None have "o2 = NeedMoreData" and n: "n = Suc n2"
        by (simp_all add: consumed_more_def)
      with Cons.IH [of d1 n2 d2] d2 show ?thesis by simp
    next
      case (Some f)
      then show ?thesis using Cons.prems Inr r by (simp add: consumed_more_def)
    qed
  qed
qed

lemma decode_whole:
  "well_formed v f \<Longrightarrow>
   decode v initial_decoder (encode_reply v f @ rest) =
     (Frame f, length (encode_reply v f), initial_decoder)"
  using decode_frame [of v f "[]" rest]
  by (simp add: initial_decoder_def delivered_def consumed_more_def)

lemma decode_proper_prefix:
  assumes wf: "well_formed v f" and i: "i < length (encode_reply v f)"
  shows "\<exists>d'. decode v initial_decoder (take i (encode_reply v f)) = (NeedMoreData, i, d') \<and>
     decode v d' (drop i (encode_reply v f)) =
       (Frame f, length (encode_reply v f) - i, initial_decoder)"
proof -
  let ?B = "encode_reply v f"
  obtain out n d' where first: "decode v initial_decoder (take i ?B) = (out, n, d')"
    by (cases "decode v initial_decoder (take i ?B)")
  have whole: "decode v initial_decoder ?B = (Frame f, length ?B, initial_decoder)"
    using decode_whole [OF wf, of "[]"] by simp
  have split: "decode v initial_decoder ?B =
      (case decode v initial_decoder (take i ?B) of
         (NeedMoreData, n, d') \<Rightarrow> consumed_more n (decode v d' (drop i ?B))
       | r \<Rightarrow> r)"
    using decode_append [of v initial_decoder "take i ?B" "drop i ?B"] by simp
  have n_le: "n \<le> i" using decode_consumed_le [OF first] i by simp
  show ?thesis
  proof (cases out)
    case (Frame g)
    then have "decode v initial_decoder ?B = (Frame g, n, d')"
      using first split by simp
    with whole n_le i show ?thesis by simp
  next
    case NeedMoreData
    then have n: "n = i" using decode_NeedMoreData_consumed first i by fastforce
    obtain o2 n2 d2 where second: "decode v d' (drop i ?B) = (o2, n2, d2)"
      by (cases "decode v d' (drop i ?B)")
    have "decode v initial_decoder ?B = (o2, i + n2, d2)"
      using first NeedMoreData n second split by (simp add: consumed_more_def)
    with whole have "o2 = Frame f" "i + n2 = length ?B" "d2 = initial_decoder" by simp_all
    then show ?thesis using first NeedMoreData n second by auto
  next
    case (Failed e)
    then have "decode v initial_decoder ?B = (Failed e, n, d')"
      using first split by simp
    with whole show ?thesis by simp
  qed
qed

text \<open>
  C2. For every well-formed reply frame and every split position \<open>i\<close> from 0 to the
  length of its encoding, decoding the first \<open>i\<close> bytes and then resuming with the
  remaining bytes yields the same decoded value as decoding the encoding in one call, and
  that value is the frame itself; at every position before the end the first call reports
  \<open>NeedMoreData\<close>.
\<close>

theorem decode_resumable:
  assumes "well_formed v f" and "i \<le> length (encode_reply v f)"
  shows "decode_resumed v initial_decoder (take i (encode_reply v f)) (drop i (encode_reply v f)) =
       fst (decode v initial_decoder (encode_reply v f)) \<and>
     fst (decode v initial_decoder (encode_reply v f)) = Frame f \<and>
     (i < length (encode_reply v f) \<longrightarrow>
        fst (decode v initial_decoder (take i (encode_reply v f))) = NeedMoreData)"
proof (cases "i < length (encode_reply v f)")
  case True
  from decode_proper_prefix [OF assms(1) True] obtain d' where
    "decode v initial_decoder (take i (encode_reply v f)) = (NeedMoreData, i, d')"
    "decode v d' (drop i (encode_reply v f)) =
       (Frame f, length (encode_reply v f) - i, initial_decoder)"
    by blast
  then show ?thesis
    using decode_whole [OF assms(1), of "[]"] by (simp add: decode_resumed_def)
next
  case False
  then have "i = length (encode_reply v f)" using assms(2) by simp
  then show ?thesis
    using decode_whole [OF assms(1), of "[]"] by (simp add: decode_resumed_def)
qed

text \<open>The array of a blob and an integer, split after its ninth of fifteen bytes.\<close>

theorem decode_resumable_witness:
  "decode_resumed RESP2 initial_decoder (take 9 (encode_reply RESP2 (Array [BlobString ''a'', Integer 7])))
     (drop 9 (encode_reply RESP2 (Array [BlobString ''a'', Integer 7]))) =
   Frame (Array [BlobString ''a'', Integer 7]) \<and>
   fst (decode RESP2 initial_decoder (take 9 (encode_reply RESP2 (Array [BlobString ''a'', Integer 7])))) =
     NeedMoreData"
proof -
  have wf: "well_formed RESP2 (Array [BlobString ''a'', Integer 7])" by simp
  have len: "length (encode_reply RESP2 (Array [BlobString ''a'', Integer 7])) = 15"
    by code_simp
  have i: "9 \<le> length (encode_reply RESP2 (Array [BlobString ''a'', Integer 7]))"
    unfolding len by simp
  show ?thesis
    using decode_resumable [OF wf i] len by simp
qed

section \<open>Replies in the order of sending\<close>

lemma on_data_append:
  "on_data v conn (xs @ ys) =
     (case on_data v conn xs of Inl e \<Rightarrow> Inl e | Inr conn' \<Rightarrow> on_data v conn' ys)"
proof (induction xs arbitrary: conn)
  case Nil
  show ?case by simp
next
  case (Cons b xs)
  show ?case
    by (simp add: Cons.IH split: sum.splits prod.splits option.splits)
qed

lemma receive_concat: "receive v conn chunks = on_data v conn (concat chunks)"
proof (induction chunks arbitrary: conn)
  case Nil
  show ?case by simp
next
  case (Cons chunk chunks)
  show ?case by (simp add: on_data_append Cons.IH split: sum.splits)
qed

lemma on_data_decode:
  "on_data v conn bs =
     (case decode v (decoder_state conn) bs of
        (Frame f, n, d') \<Rightarrow> on_data v (on_frame (conn\<lparr> decoder_state := d' \<rparr>) f) (drop n bs)
      | (NeedMoreData, n, d') \<Rightarrow> Inr (conn\<lparr> decoder_state := d' \<rparr>)
      | (Failed e, n, d') \<Rightarrow> Inl e)"
proof (induction bs arbitrary: conn)
  case Nil
  show ?case by simp
next
  case (Cons b bs)
  show ?case
  proof (cases "step v (decoder_state conn) b")
    case (Inl e)
    then show ?thesis by (simp add: consumed_more_def)
  next
    case (Inr r)
    obtain out d' where r: "r = (out, d')" by (cases r)
    show ?thesis
    proof (cases out)
      case None
      obtain o2 n2 d2 where d2: "decode v d' bs = (o2, n2, d2)" by (cases "decode v d' bs")
      show ?thesis
        using Cons.IH [of "conn\<lparr> decoder_state := d' \<rparr>"] Inr r None d2
        by (cases o2) (simp_all add: consumed_more_def)
    next
      case (Some f)
      then show ?thesis using Inr r by (simp add: consumed_more_def)
    qed
  qed
qed

lemma decoder_state_on_frame [simp]: "decoder_state (on_frame conn f) = decoder_state conn"
  by (simp add: on_frame_def split: list.splits)

lemma on_data_frame:
  assumes "well_formed v f" and "decoder_state conn = initial_decoder"
  shows "on_data v conn (encode_reply v f @ rest) = on_data v (on_frame conn f) rest"
proof -
  have same: "conn\<lparr> decoder_state := initial_decoder \<rparr> = conn" using assms(2) by simp
  show ?thesis
    using decode_whole [OF assms(1), of rest] assms(2)
    by (simp add: on_data_decode [of v conn] same)
qed

lemma on_data_frames:
  assumes "\<forall>f \<in> set fs. well_formed v f" and "decoder_state conn = initial_decoder"
  shows "on_data v conn (concat (map (encode_reply v) fs)) = Inr (foldl on_frame conn fs)"
  using assms
proof (induction fs arbitrary: conn)
  case Nil
  show ?case by simp
next
  case (Cons f fs)
  then show ?case by (simp add: on_data_frame)
qed

lemma replies_resolve_queue:
  assumes "length (replies_of fs) \<le> length (queue conn)"
  shows "resolved (foldl on_frame conn fs) =
       resolved conn @ zip (map cell (queue conn)) (replies_of fs) \<and>
     queue (foldl on_frame conn fs) = drop (length (replies_of fs)) (queue conn) \<and>
     pushed (foldl on_frame conn fs) = pushed conn @ filter is_push fs"
  using assms
proof (induction fs arbitrary: conn)
  case Nil
  show ?case by (simp add: replies_of_def)
next
  case (Cons f fs)
  show ?case
  proof (cases "is_push f")
    case True
    then have here: "on_frame conn f = conn\<lparr> pushed := pushed conn @ [f] \<rparr>"
      by (simp add: on_frame_def)
    have same: "replies_of (f # fs) = replies_of fs"
      using True by (simp add: replies_of_def)
    show ?thesis
      using Cons.IH [of "on_frame conn f"] Cons.prems True
      by (simp add: here same)
  next
    case False
    have more: "replies_of (f # fs) = f # replies_of fs"
      using False by (simp add: replies_of_def)
    with Cons.prems obtain entry later where q: "queue conn = entry # later"
      by (cases "queue conn") auto
    have here: "on_frame conn f =
        conn\<lparr> queue := later, resolved := resolved conn @ [(cell entry, f)] \<rparr>"
      using q False by (simp add: on_frame_def)
    show ?thesis
      using Cons.IH [of "on_frame conn f"] Cons.prems q False
      by (simp add: here more)
  qed
qed

lemma send_all_state:
  "map cell (queue (send_all conn cmds)) =
     map cell (queue conn) @ [next_cell conn ..< next_cell conn + length cmds] \<and>
   map pending_command (queue (send_all conn cmds)) = map pending_command (queue conn) @ cmds \<and>
   next_cell (send_all conn cmds) = next_cell conn + length cmds \<and>
   decoder_state (send_all conn cmds) = decoder_state conn \<and>
   resolved (send_all conn cmds) = resolved conn \<and>
   pushed (send_all conn cmds) = pushed conn"
proof (induction cmds rule: rev_induct)
  case Nil
  show ?case by (simp add: send_all_def)
next
  case (snoc c cmds)
  then show ?case by (simp add: send_all_def send_def)
qed

lemma send_all_initial:
  "map cell (queue (send_all initial_connection cmds)) = [0..<length cmds]"
  "map pending_command (queue (send_all initial_connection cmds)) = cmds"
  "decoder_state (send_all initial_connection cmds) = initial_decoder"
  "resolved (send_all initial_connection cmds) = []"
  "pushed (send_all initial_connection cmds) = []"
  using send_all_state [of initial_connection cmds]
  by (simp_all add: initial_connection_def)

text \<open>
  C1. On one connection, after \<open>N\<close> commands were sent back to back, the pending entries
  are the commands in the order they were sent; whatever the chunks in which the bytes of
  the server's frames arrive, the handler returns, the \<open>N\<close> result cells are resolved in
  the order of sending, the \<open>k\<close>-th cell with the \<open>k\<close>-th reply, and the queue is empty.
  (The frames of the stream are well formed; push frames among them go to the
  multiplexer and resolve no cell; the replies are the frames that are not push frames,
  one for every command.)
\<close>

theorem pipeline_replies_in_send_order:
  assumes "\<forall>f \<in> set frames. well_formed v f"
    and "length (replies_of frames) = length cmds"
    and "concat chunks = concat (map (encode_reply v) frames)"
  shows "map pending_command (queue (send_all initial_connection cmds)) = cmds \<and>
     (\<exists>conn'. receive v (send_all initial_connection cmds) chunks = Inr conn' \<and>
        resolved conn' = zip [0..<length cmds] (replies_of frames) \<and>
        queue conn' = [] \<and>
        pushed conn' = filter is_push frames)"
proof -
  let ?sent = "send_all initial_connection cmds"
  have len: "length (queue ?sent) = length cmds"
    using send_all_initial(1) [of cmds] by (metis length_map length_upt minus_nat.diff_0)
  have run: "receive v ?sent chunks = Inr (foldl on_frame ?sent frames)"
    using on_data_frames [OF assms(1) send_all_initial(3)]
    by (simp add: receive_concat assms(3))
  have "length (replies_of frames) \<le> length (queue ?sent)" using len assms(2) by simp
  from replies_resolve_queue [OF this]
  have "resolved (foldl on_frame ?sent frames) = zip [0..<length cmds] (replies_of frames)"
    and "queue (foldl on_frame ?sent frames) = []"
    and "pushed (foldl on_frame ?sent frames) = filter is_push frames"
    using send_all_initial [of cmds] len assms(2) by simp_all
  with run send_all_initial(2) [of cmds] show ?thesis by simp
qed

text \<open>
  Two commands in flight under RESP3; a push frame arrives between their replies, and
  the bytes come in three chunks that cut the frames in the middle.
\<close>

theorem pipeline_replies_in_send_order_witness:
  "\<exists>conn'. receive RESP3 (send_all initial_connection [[''PING''], [''GET'', ''k'']])
       [''+PO'', ''NG'' @ [CR, LF] @ ''>1'' @ [CR, LF] @ '':5'' @ [CR, LF] @ ''$1'' @ [CR],
        [LF] @ ''v'' @ [CR, LF]] = Inr conn' \<and>
     resolved conn' = [(0, SimpleString ''PONG''), (1, BlobString ''v'')] \<and>
     queue conn' = [] \<and>
     pushed conn' = [Push [Integer 5]]"
proof -
  let ?frames = "[SimpleString ''PONG'', Push [Integer 5], BlobString ''v'']"
  let ?cmds = "[[''PING''], [''GET'', ''k'']]"
  have one: "nat_decimal (Suc 0) = ''1''" by code_simp
  have five: "int_decimal 5 = ''5''" by code_simp
  have wf: "\<forall>f \<in> set ?frames. well_formed RESP3 f" by (simp add: CR_def)
  have n: "length (replies_of ?frames) = length ?cmds" by (simp add: replies_of_def)
  have bytes: "concat [''+PO'', ''NG'' @ [CR, LF] @ ''>1'' @ [CR, LF] @ '':5'' @ [CR, LF] @ ''$1'' @ [CR],
        [LF] @ ''v'' @ [CR, LF]] = concat (map (encode_reply RESP3) ?frames)"
    by (simp add: line_def one five)
  show ?thesis
    using pipeline_replies_in_send_order [OF wf n bytes]
    by (simp add: replies_of_def)
qed

section \<open>Hash tags\<close>

lemma hash_tag_first_group:
  assumes "CHR ''{'' \<notin> set before" and "tag \<noteq> []" and "CHR ''}'' \<notin> set tag"
  shows "hash_tag (before @ CHR ''{'' # tag @ CHR ''}'' # after) = Some tag"
proof -
  have "dropWhile (\<lambda>c. c \<noteq> CHR ''{'') (before @ CHR ''{'' # tag @ CHR ''}'' # after) =
      CHR ''{'' # tag @ CHR ''}'' # after"
    using assms(1) by (induction before) auto
  moreover have "takeWhile (\<lambda>c. c \<noteq> CHR ''}'') (tag @ CHR ''}'' # after) = tag"
    using assms(3) by (induction tag) auto
  ultimately show ?thesis using assms(2) by (simp add: hash_tag_def)
qed

lemma crc16_a: "crc16 ''a'' = 31879"
  by (simp add: crc16_def crc16_byte_def crc16_bit_def)

lemma crc16_tag: "crc16 ''tag'' = 8338"
  by (simp add: crc16_def crc16_byte_def crc16_bit_def)

text \<open>
  C3, as amended. Two keys whose first \<open>{\<close>...\<open>}\<close> group holds the same non-empty tag
  (no \<open>{\<close> before the group, no \<open>}\<close> inside the tag) have the same slot, the hash of the
  tag reduced to the 16384 slots, whatever surrounds the group and whatever the hash
  function; so both keys are dispatched to the same node of any slot map.
\<close>

theorem same_first_hash_tag_same_slot:
  assumes "CHR ''{'' \<notin> set before1" and "CHR ''{'' \<notin> set before2"
    and "tag \<noteq> []" and "CHR ''}'' \<notin> set tag"
  shows "key_slot hash (before1 @ CHR ''{'' # tag @ CHR ''}'' # after1) =
       key_slot hash (before2 @ CHR ''{'' # tag @ CHR ''}'' # after2) \<and>
     key_slot hash (before1 @ CHR ''{'' # tag @ CHR ''}'' # after1) = hash tag mod 16384 \<and>
     target_node slots hash (before1 @ CHR ''{'' # tag @ CHR ''}'' # after1) =
       target_node slots hash (before2 @ CHR ''{'' # tag @ CHR ''}'' # after2)"
  using hash_tag_first_group [OF assms(1,3,4)] hash_tag_first_group [OF assms(2,3,4)]
  by (simp add: key_slot_def hashed_part_def target_node_def)

text \<open>The keys of the cluster tests, \<open>{tag}source\<close> and \<open>{tag}destination\<close>.\<close>

theorem same_first_hash_tag_same_slot_witness:
  "key_slot crc16 ''{tag}source'' = key_slot crc16 ''{tag}destination'' \<and>
   key_slot crc16 ''{tag}source'' = 8338 \<and>
   target_node [8338 \<mapsto> ''node-2''] crc16 ''{tag}source'' = Some ''node-2'' \<and>
   target_node [8338 \<mapsto> ''node-2''] crc16 ''{tag}destination'' = Some ''node-2''"
proof -
  have a: "CHR ''{'' \<notin> set []" by simp
  have t: "''tag'' \<noteq> []" by simp
  have c: "CHR ''}'' \<notin> set ''tag''" by simp
  show ?thesis
    using same_first_hash_tag_same_slot [OF a a t c, of crc16 "''source''" "''destination''"
        "[8338 \<mapsto> ''node-2'']"]
    by (simp add: crc16_tag target_node_def)
qed

text \<open>
  The claim as stated fails: \<open>{a}{tag}\<close> and \<open>{tag}b\<close> share the substring \<open>{tag}\<close>, but
  the first group of \<open>{a}{tag}\<close> is \<open>{a}\<close>, and the two keys fall into different slots.
\<close>

theorem shared_tag_substring_counterexample:
  "shares_tag ''tag'' ''{a}{tag}'' ''{tag}b'' \<and>
   key_slot crc16 ''{a}{tag}'' \<noteq> key_slot crc16 ''{tag}b''"
proof -
  have "sublist ''{tag}'' (''{a}'' @ ''{tag}'' @ [])" by (rule sublist_appendI)
  moreover have "sublist ''{tag}'' ([] @ ''{tag}'' @ ''b'')" by (rule sublist_appendI)
  ultimately have "shares_tag ''tag'' ''{a}{tag}'' ''{tag}b''"
    by (simp add: shares_tag_def)
  moreover have "key_slot crc16 ''{a}{tag}'' = 15495"
    using hash_tag_first_group [of "[]" "''a''" "''{tag}''"]
    by (simp add: key_slot_def hashed_part_def crc16_a)
  moreover have "key_slot crc16 ''{tag}b'' = 8338"
    using hash_tag_first_group [of "[]" "''tag''" "''b''"]
    by (simp add: key_slot_def hashed_part_def crc16_tag)
  ultimately show ?thesis by simp
qed

end
